theory Spec2Isabelle
  imports Main "HOL-Library.Word"
begin

unbundle bit_operations_syntax

section \<open>Data model of hidden.go\<close>

text \<open>
  The program hides a message file in the pixel bytes of a bitmap. The model works on
  what the two commands compute once the files are opened: \<open>img.Pix\<close> is a list of
  bytes, the message file is a list of bytes. Go's \<open>int\<close> is taken as the 64-bit type of
  the common platforms, so lengths and indices are natural numbers that never wrap;
  \<open>byte\<close> and \<open>uint32\<close> are words and wrap as in the source.
\<close>

type_synonym byte = "8 word"
type_synonym uint32 = "32 word"

text \<open>
  Every call of \<open>fatal\<close> ends the process with a message; the model returns it as an
  error value. \<open>EOF\<close> is \<open>io.EOF\<close> of \<open>bitReader.next\<close>. \<open>OutOfRange\<close> stands for
  the run-time panic of an index or slice expression out of range.
\<close>

datatype error = MessageTooLarge | NoHiddenMessage | EOF | OutOfRange

subsection \<open>Library functions the program calls\<close>

text \<open>
  \<open>binary.Write(&buf, binary.BigEndian, v)\<close> for a \<open>uint32\<close> appends the four bytes
  \<open>byte(v >> 24), byte(v >> 16), byte(v >> 8), byte(v)\<close>.
\<close>

definition binary_Write :: "uint32 \<Rightarrow> byte list" where
  "binary_Write v =
     [ucast (drop_bit 24 v), ucast (drop_bit 16 v), ucast (drop_bit 8 v), ucast v]"

text \<open>
  \<open>binary.BigEndian.Uint32(b)\<close> is
  \<open>uint32(b[3]) | uint32(b[2])<<8 | uint32(b[1])<<16 | uint32(b[0])<<24\<close>.
\<close>

definition Uint32 :: "byte list \<Rightarrow> uint32" where
  "Uint32 b =
     ucast (b ! 3) OR push_bit 8 (ucast (b ! 2)) OR push_bit 16 (ucast (b ! 1))
       OR push_bit 24 (ucast (b ! 0))"

text \<open>
  \<open>binary.Read(&buf, binary.BigEndian, &x)\<close> for \<open>x\<close> a \<open>uint32\<close> reads four bytes with
  \<open>io.ReadFull\<close>. With fewer than four bytes left, the buffer is drained, an error
  (\<open>io.EOF\<close> or \<open>io.ErrUnexpectedEOF\<close>, modelled by \<open>EOF\<close>) is returned and \<open>x\<close>
  keeps its value. The result is the error (if any), the value of \<open>x\<close> after the call
  and the rest of the buffer.
\<close>

definition binary_Read :: "byte list \<Rightarrow> uint32 \<Rightarrow> error option \<times> uint32 \<times> byte list" where
  "binary_Read buf x =
     (if length buf < 4 then (Some EOF, x, [])
      else (None, Uint32 (take 4 buf), drop 4 buf))"

text \<open>
  \<open>adler32.Checksum\<close> of Go's \<open>hash/adler32\<close>, as RFC 1950 defines it: two sums modulo
  65521, the first starting at 1, returned as \<open>s2<<16 | s1\<close>.
\<close>

fun adler32_update :: "nat \<Rightarrow> nat \<Rightarrow> byte list \<Rightarrow> nat \<times> nat" where
  "adler32_update s1 s2 [] = (s1, s2)"
| "adler32_update s1 s2 (x # xs) =
     (let s1' = (s1 + unat x) mod 65521; s2' = (s2 + s1') mod 65521
      in adler32_update s1' s2' xs)"

definition Checksum :: "byte list \<Rightarrow> uint32" where
  "Checksum p =
     (case adler32_update 1 0 p of (s1, s2) \<Rightarrow> push_bit 16 (of_nat s2) OR of_nat s1)"

subsection \<open>The bit reader\<close>

record bitReader =
  ptr :: nat
  data :: "byte list"

text \<open>\<open>newBitReader\<close>, on the bytes of the message file.\<close>

definition newBitReader :: "byte list \<Rightarrow> bitReader" where
  "newBitReader msg =
     \<lparr>ptr = 0,
      data = binary_Write (of_nat (length msg)) @ binary_Write (Checksum msg) @ msg\<rparr>"

text \<open>An index expression \<open>xs[i]\<close>: it panics out of range.\<close>

definition index :: "'a list \<Rightarrow> nat \<Rightarrow> error + 'a" where
  "index xs i = (if i < length xs then Inr (xs ! i) else Inl OutOfRange)"

text \<open>
  \<open>bitReader.next\<close>: the returned pair is \<open>Inl EOF\<close> or \<open>Inr\<close> of the bit, with the
  reader after the call.
\<close>

definition bitReader_next :: "bitReader \<Rightarrow> (error + byte) \<times> bitReader" where
  "bitReader_next br =
     (let i = ptr br div 8 in
      if i \<ge> length (data br) then (Inl EOF, br)
      else
        (let bt = (of_nat (ptr br mod 8) :: byte) in
         case index (data br) i of
           Inl e \<Rightarrow> (Inl e, br)
         | Inr b \<Rightarrow>
             (Inr (drop_bit (unat (7 - bt)) (b AND drop_bit (unat bt) 0x80)),
              br\<lparr>ptr := ptr br + 1\<rparr>)))"

subsection \<open>encode\<close>

text \<open>
  The loop of \<open>encode\<close> over \<open>srcImg.Pix\<close>, from index \<open>i\<close> on: \<open>bs\<close> are the bytes
  still to visit, \<open>dest\<close> is \<open>destImg.Pix\<close>.
\<close>

fun encode_loop :: "nat \<Rightarrow> byte list \<Rightarrow> bitReader \<Rightarrow> byte list \<Rightarrow> error + byte list" where
  "encode_loop i [] r dest = Inr dest"
| "encode_loop i (b # bs) r dest =
     (if (i + 1) mod 4 = 0 then
        (if i < length dest then encode_loop (i + 1) bs r (dest[i := b]) else Inl OutOfRange)
      else
        (case bitReader_next r of
           (Inl EOF, r') \<Rightarrow>
             (if i < length dest then encode_loop (i + 1) bs r' (dest[i := b])
              else Inl OutOfRange)
         | (Inl e, r') \<Rightarrow> Inl e
         | (Inr bt, r') \<Rightarrow>
             (let b' = (if b mod 2 \<noteq> 0 then b - 1 else b) in
              if i < length dest then encode_loop (i + 1) bs r' (dest[i := b' + bt])
              else Inl OutOfRange)))"

text \<open>
  The two pixel buffers of \<open>encode\<close>: the carrier read from the input file and the
  buffer that is written to the output file when the loop is over.
\<close>

record images =
  srcPix :: "byte list"
  destPix :: "byte list"

text \<open>
  \<open>encode\<close> up to the end of its loop: \<open>image.NewRGBA\<close> gives a zeroed buffer of the
  carrier's size, then the capacity check, then the loop. The result is the error that
  ended the run (if any) and both buffers at that moment.
\<close>

definition encode_run :: "byte list \<Rightarrow> byte list \<Rightarrow> error option \<times> images" where
  "encode_run pix msg =
     (let st = \<lparr>srcPix = pix, destPix = replicate (length pix) 0\<rparr>;
          r = newBitReader msg;
          ln = length (srcPix st)
      in if length (data r) + ln div 4 > ln then (Some MessageTooLarge, st)
         else (case encode_loop 0 (srcPix st) r (destPix st) of
                 Inl e \<Rightarrow> (Some e, st)
               | Inr d \<Rightarrow> (None, st\<lparr>destPix := d\<rparr>)))"

text \<open>The pixel bytes of the file \<open>encode\<close> writes, or the error.\<close>

definition encode :: "byte list \<Rightarrow> byte list \<Rightarrow> error + byte list" where
  "encode pix msg =
     (case encode_run pix msg of (Some e, st) \<Rightarrow> Inl e | (None, st) \<Rightarrow> Inr (destPix st))"

subsection \<open>decode\<close>

text \<open>
  The first loop of \<open>decode\<close>: \<open>buf\<close> is the byte buffer, \<open>res\<close> the byte being
  assembled, \<open>j\<close> the 32-bit bit counter.
\<close>

fun decode_loop :: "nat \<Rightarrow> byte list \<Rightarrow> byte list \<Rightarrow> byte \<Rightarrow> uint32 \<Rightarrow> byte list" where
  "decode_loop i [] buf res j = buf"
| "decode_loop i (b # bs) buf res j =
     (if (i + 1) mod 4 = 0 then decode_loop (i + 1) bs buf res j
      else
        (let bt = b mod 2;
             res' = res OR push_bit (unat (7 - j mod 8)) bt;
             j' = j + 1
         in if j' mod 8 = 0 then decode_loop (i + 1) bs (buf @ [res']) 0 j'
            else decode_loop (i + 1) bs buf res' j'))"

definition decode_extract :: "byte list \<Rightarrow> byte list" where
  "decode_extract pix = decode_loop 0 pix [] 0 0"

text \<open>
  The two header reads of \<open>decode\<close>; their errors are dropped, as in the source. The
  result is \<open>size\<close>, \<open>hash\<close> and \<open>buf.Bytes()\<close>.
\<close>

definition read_header :: "byte list \<Rightarrow> uint32 \<times> uint32 \<times> byte list" where
  "read_header buf =
     (case binary_Read buf 0 of (_, sz, buf1) \<Rightarrow>
        (case binary_Read buf1 0 of (_, hsh, buf2) \<Rightarrow> (sz, hsh, buf2)))"

text \<open>
  A slice expression \<open>xs[:n]\<close>: it panics when \<open>n\<close> exceeds the capacity, taken
  here to be the length (the strictest reading).
\<close>

definition slice_to :: "'a list \<Rightarrow> nat \<Rightarrow> error + 'a list" where
  "slice_to xs n = (if n \<le> length xs then Inr (take n xs) else Inl OutOfRange)"

text \<open>
  The rest of \<open>decode\<close>, on the extracted buffer: the result is the content written
  to the output file, or the error.
\<close>

definition parse_and_verify :: "byte list \<Rightarrow> error + byte list" where
  "parse_and_verify buf =
     (case read_header buf of (sz, hsh, msg) \<Rightarrow>
        if length msg < unat sz then Inl NoHiddenMessage
        else (case slice_to msg (unat sz) of
                Inl e \<Rightarrow> Inl e
              | Inr msg' \<Rightarrow>
                  if Checksum msg' \<noteq> hsh then Inl NoHiddenMessage else Inr msg'))"

definition decode :: "byte list \<Rightarrow> error + byte list" where
  "decode pix = parse_and_verify (decode_extract pix)"

section \<open>Notions of the specification\<close>

text \<open>
  A channel byte at index \<open>i\<close> is eligible unless \<open>(i + 1) mod 4 = 0\<close>. \<open>E\<close> is the
  number of eligible bytes of a buffer, \<open>eligible_bytes\<close> lists them in buffer order,
  and \<open>rank i\<close> counts the eligible indices below \<open>i\<close>: an eligible byte at index \<open>i\<close>
  is number \<open>rank i\<close> among the eligible ones.
\<close>

definition eligible :: "nat \<Rightarrow> bool" where
  "eligible i = ((i + 1) mod 4 \<noteq> 0)"

definition eligible_count :: "'a list \<Rightarrow> nat" where
  "eligible_count pix = length (filter eligible [0..<length pix])"

definition eligible_bytes :: "'a list \<Rightarrow> 'a list" where
  "eligible_bytes pix = map (\<lambda>i. pix ! i) (filter eligible [0..<length pix])"

definition rank :: "nat \<Rightarrow> nat" where
  "rank i = length (filter eligible [0..<i])"

definition lsb :: "byte \<Rightarrow> bool" where
  "lsb b = bit b 0"

text \<open>The eligible bytes of \<open>bs\<close>, when its first byte has index \<open>i\<close> in the buffer.\<close>

fun eligibles :: "nat \<Rightarrow> 'a list \<Rightarrow> 'a list" where
  "eligibles i [] = []"
| "eligibles i (b # bs) =
     (if (i + 1) mod 4 = 0 then eligibles (i + 1) bs else b # eligibles (i + 1) bs)"

text \<open>
  Packing bits into bytes, most significant bit first: \<open>partial_byte k vs\<close> places the
  bits \<open>vs\<close> from bit position \<open>7 - k\<close> downwards, \<open>pack_bits\<close> packs each full group
  of eight bits and drops an incomplete last group.
\<close>

fun partial_byte :: "nat \<Rightarrow> bool list \<Rightarrow> byte" where
  "partial_byte k [] = 0"
| "partial_byte k (v # vs) = push_bit (7 - k) (of_bool v) OR partial_byte (k + 1) vs"

function pack_bits :: "bool list \<Rightarrow> byte list" where
  "pack_bits vs =
     (if length vs < 8 then [] else partial_byte 0 (take 8 vs) # pack_bits (drop 8 vs))"
  by pat_completeness auto
termination
  by (relation "measure length") auto

declare pack_bits.simps [simp del]

text \<open>
  Bit \<open>k\<close> of a byte buffer read most significant bit first, and the whole buffer as
  bits.
\<close>

definition frame_bit :: "byte list \<Rightarrow> nat \<Rightarrow> bool" where
  "frame_bit d k = bit (d ! (k div 8)) (7 - k mod 8)"

definition frame_bits :: "byte list \<Rightarrow> bool list" where
  "frame_bits d = map (frame_bit d) [0..<8 * length d]"

text \<open>The mutation rule of the specification: \<open>b\<close> with its lowest bit cleared, or \<open>v\<close>.\<close>

definition set_lsb :: "byte \<Rightarrow> bool \<Rightarrow> byte" where
  "set_lsb b v = (b AND 0xFE) OR of_bool v"

text \<open>
  Embedding a bit list into the bytes \<open>bs\<close> whose first byte has index \<open>i\<close>: one bit
  per eligible byte, the other bytes and the bytes after the last bit unchanged.
\<close>

fun embed_bits :: "nat \<Rightarrow> byte list \<Rightarrow> bool list \<Rightarrow> byte list" where
  "embed_bits i [] vs = []"
| "embed_bits i (b # bs) vs =
     (if (i + 1) mod 4 = 0 then b # embed_bits (i + 1) bs vs
      else (case vs of
              [] \<Rightarrow> b # embed_bits (i + 1) bs []
            | v # vs' \<Rightarrow> set_lsb b v # embed_bits (i + 1) bs vs'))"


text \<open>
  \<open>encode\<close> on a carrier and a message, then \<open>decode\<close> on the image it wrote;
  writing the image file and reading it back is taken to keep the pixel bytes.
\<close>

definition encode_then_decode :: "byte list \<Rightarrow> byte list \<Rightarrow> error + byte list" where
  "encode_then_decode pix msg =
     (case encode pix msg of Inl e \<Rightarrow> Inl e | Inr out \<Rightarrow> decode out)"

subsection \<open>Concrete inputs\<close>

text \<open>The message ``HELLO'' and the carrier of 10,000 pixels of the specification.\<close>

definition hello :: "byte list" where
  "hello = [72, 69, 76, 76, 79]"

definition carrier_40000 :: "byte list" where
  "carrier_40000 = replicate 40000 0"

definition payload_3743 :: "byte list" where
  "payload_3743 = replicate 3743 0"

text \<open>A message of \<open>2 ^ 32\<close> bytes and a carrier large enough for its frame.\<close>

definition payload_4GiB :: "byte list" where
  "payload_4GiB = replicate (2 ^ 32) 0"

definition carrier_64GiB :: "byte list" where
  "carrier_64GiB = replicate (2 ^ 36) 0"

text \<open>The pixel bytes of the image that \<open>encode\<close> writes for ``HELLO''.\<close>

definition hello_image :: "byte list" where
  "hello_image = (case encode carrier_40000 hello of Inl e \<Rightarrow> [] | Inr out \<Rightarrow> out)"

text \<open>A carrier of three pixels: nine bytes are eligible, so one byte is extracted.\<close>

definition carrier_12 :: "byte list" where
  "carrier_12 = [1, 0, 1, 9, 1, 1, 0, 7, 0, 1, 1, 3]"


section \<open>Properties of the library functions and of the loops\<close>

subsection \<open>Word arithmetic of the two loops\<close>

lemma unat_7_sub: "unat (7 - j mod 8 :: uint32) = 7 - unat j mod 8"
proof -
  have m: "unat (j mod 8) = unat j mod 8" by (simp add: unat_mod)
  have "unat j mod 8 \<le> 7" by arith
  then have "j mod 8 \<le> 7" by (simp add: word_le_nat_alt m)
  then show ?thesis by (simp add: unat_sub m)
qed

lemma j_succ: "((j + 1) mod 8 = (0::uint32)) \<longleftrightarrow> (unat j + 1) mod 8 = 0"
proof -
  have "unat ((j + 1) mod 8) = ((unat j + 1) mod 2 ^ 32) mod 8"
    by (simp add: unat_mod unat_word_ariths)
  also have "\<dots> = (unat j + 1) mod 8"
    by (rule mod_mod_cancel) simp
  finally have "unat ((j + 1) mod 8) = (unat j + 1) mod 8" .
  then show ?thesis by (metis unat_eq_0)
qed

lemma unat_j_succ: "unat (j + 1 :: uint32) mod 8 = (unat j + 1) mod 8"
proof -
  have "unat (j + 1) mod 8 = ((unat j + 1) mod 2 ^ 32) mod 8"
    by (simp add: unat_word_ariths)
  also have "\<dots> = (unat j + 1) mod 8"
    by (rule mod_mod_cancel) simp
  finally show ?thesis .
qed

lemma byte_mod_2: "(b :: byte) mod 2 = of_bool (bit b 0)"
  by (simp add: bit_0 odd_iff_mod_2_eq_one)

lemma Uint32_binary_Write: "Uint32 (binary_Write v) = v"
proof (rule bit_word_eqI)
  fix n assume n: "n < LENGTH(32)"
  consider "n < 8" | "8 \<le> n" "n < 16" | "16 \<le> n" "n < 24" | "24 \<le> n" by linarith
  then show "bit (Uint32 (binary_Write v)) n = bit v n"
  proof cases
    case 1 then show ?thesis using n by (auto simp add: Uint32_def binary_Write_def bit_simps)
  next
    case 2 then show ?thesis using n by (auto simp add: Uint32_def binary_Write_def bit_simps)
  next
    case 3 then show ?thesis using n by (auto simp add: Uint32_def binary_Write_def bit_simps)
  next
    case 4 then show ?thesis using n by (auto simp add: Uint32_def binary_Write_def bit_simps)
  qed
qed

lemma next_bit_word:
  assumes k: "k < 8"
  shows "drop_bit (unat (7 - (of_nat k :: byte))) ((b::byte) AND drop_bit (unat (of_nat k :: byte)) 0x80)
     = of_bool (bit b (7 - k))"
proof -
  have u: "unat (of_nat k :: byte) = k" using k by (simp add: unat_of_nat)
  have "(of_nat k :: byte) \<le> 7" using k by (simp add: word_le_nat_alt u)
  then have u7: "unat (7 - (of_nat k :: byte)) = 7 - k" by (simp add: unat_sub u)
  have e: "(0x80 :: byte) = push_bit 7 1" by simp
  have "bit (drop_bit (7 - k) (b AND drop_bit k (push_bit 7 1))) n = bit (of_bool (bit b (7 - k)) :: byte) n" for n
    using k by (auto simp add: bit_simps simp del: push_bit_of_1)
  then show ?thesis unfolding u u7 e by (rule bit_eqI)
qed

lemma clear_lsb_word: "(if (b::byte) mod 2 \<noteq> 0 then b - 1 else b) = unset_bit 0 b"
proof -
  have e: "2 * (b div 2) + b mod 2 = b" by (rule mult_div_mod_eq)
  show ?thesis
  proof (cases "b mod 2 = 0")
    case True
    with e show ?thesis by (simp add: unset_bit_0)
  next
    case False
    then have "b mod 2 = 1" by (simp add: odd_iff_mod_2_eq_one even_iff_mod_2_eq_zero)
    with e have "b - 1 = 2 * (b div 2)" by (metis add_diff_cancel_right')
    with False show ?thesis by (simp add: unset_bit_0)
  qed
qed

lemma set_lsb_bits:
  "bit ((if (b::byte) mod 2 \<noteq> 0 then b - 1 else b) + of_bool v) n = (if n = 0 then v else bit b n)"
proof -
  have "unset_bit 0 b + of_bool v = unset_bit 0 b OR (of_bool v :: byte)"
    by (rule disjunctive_add) (auto simp add: bit_simps)
  then show ?thesis unfolding clear_lsb_word
    by (auto simp add: bit_simps)
qed

lemma set_lsb_word:
  "(if (b::byte) mod 2 \<noteq> 0 then b - 1 else b) + of_bool v = (b AND 0xFE) OR of_bool v"
proof (rule bit_eqI)
  fix n
  have m: "(0xFE :: byte) = NOT 1" by simp
  have "bit ((b AND 0xFE) OR (of_bool v :: byte)) n = (if n = 0 then v else bit b n)"
    unfolding m by (auto simp add: bit_simps dest: bit_imp_le_length)
  then show "bit ((if b mod 2 \<noteq> 0 then b - 1 else b) + of_bool v) n = bit ((b AND 0xFE) OR of_bool v) n"
    by (simp only: set_lsb_bits)
qed

subsection \<open>Eligible bytes and their count\<close>

lemma eligibles_eq:
  "eligibles i bs = map (\<lambda>k. bs ! (k - i)) (filter eligible [i..<i + length bs])"
proof (induction bs arbitrary: i)
  case Nil
  show ?case by simp
next
  case (Cons b bs)
  have u: "[i..<i + length (b # bs)] = i # [Suc i..<Suc i + length bs]"
    using upt_conv_Cons [of i "i + length (b # bs)"] by simp
  have m: "map (\<lambda>k. (b # bs) ! (k - i)) (filter eligible [Suc i..<Suc i + length bs])
      = map (\<lambda>k. bs ! (k - Suc i)) (filter eligible [Suc i..<Suc i + length bs])"
    by (rule map_cong) (auto simp add: nth_Cons')
  show ?case
    unfolding u using Cons.IH [of "Suc i"] m by (simp add: eligible_def)
qed

lemma eligibles_0: "eligibles 0 pix = eligible_bytes pix"
  by (simp add: eligibles_eq eligible_bytes_def)

lemma rank_eq: "rank i = i - i div 4"
proof (induction i)
  case 0
  show ?case by (simp add: rank_def)
next
  case (Suc i)
  have "Suc i - Suc i div 4 = (i - i div 4) + (if (i + 1) mod 4 \<noteq> 0 then 1 else 0)"
    by (simp add: Suc_diff_le mod_Suc div_Suc)
  with Suc show ?case by (simp add: rank_def eligible_def)
qed

lemma eligible_count_eq: "eligible_count pix = length pix - length pix div 4"
  using rank_eq [of "length pix"] by (simp add: rank_def eligible_count_def)

lemma length_eligible_bytes: "length (eligible_bytes pix) = eligible_count pix"
  by (simp add: eligible_bytes_def eligible_count_def)

subsection \<open>The first loop of decode packs the lowest bits\<close>

lemma partial_byte_append:
  "partial_byte k (ps @ qs) = partial_byte k ps OR partial_byte (k + length ps) qs"
  by (induction ps arbitrary: k) (simp_all add: ac_simps)

lemma pack_bits_short: "length vs < 8 \<Longrightarrow> pack_bits vs = []"
  by (simp add: pack_bits.simps)

lemma pack_bits_8: "length ps = 8 \<Longrightarrow> pack_bits (ps @ vs) = partial_byte 0 ps # pack_bits vs"
  by (subst pack_bits.simps) simp

lemma decode_loop_eq:
  "length ps < 8 \<Longrightarrow> unat j mod 8 = length ps \<Longrightarrow> res = partial_byte 0 ps \<Longrightarrow>
   decode_loop i bs buf res j = buf @ pack_bits (ps @ map lsb (eligibles i bs))"
proof (induction bs arbitrary: i buf res j ps)
  case Nil
  then show ?case by (simp add: pack_bits_short)
next
  case (Cons b bs)
  show ?case
  proof (cases "(i + 1) mod 4 = 0")
    case True
    with Cons show ?thesis by simp
  next
    case False
    let ?v = "lsb b"
    let ?res = "res OR push_bit (unat (7 - j mod 8)) (b mod 2)"
    have r: "?res = partial_byte 0 (ps @ [?v])"
      using Cons.prems by (simp add: partial_byte_append unat_7_sub byte_mod_2 lsb_def)
    show ?thesis
    proof (cases "(j + 1) mod 8 = 0")
      case True
      then have "length (ps @ [?v]) = 8"
        using Cons.prems by (simp add: j_succ) arith
      then have p: "pack_bits ((ps @ [?v]) @ map lsb (eligibles (i + 1) bs))
          = ?res # pack_bits (map lsb (eligibles (i + 1) bs))"
        unfolding r by (rule pack_bits_8)
      have "decode_loop (i + 1) bs (buf @ [?res]) 0 (j + 1)
          = (buf @ [?res]) @ pack_bits ([] @ map lsb (eligibles (i + 1) bs))"
        by (rule Cons.IH) (use True in \<open>simp_all add: j_succ unat_j_succ\<close>)
      with True False p show ?thesis by (simp add: Let_def)
    next
      case F2: False
      then have l: "length (ps @ [?v]) < 8"
        using Cons.prems by (simp add: j_succ) arith
      have "decode_loop (i + 1) bs buf ?res (j + 1)
          = buf @ pack_bits ((ps @ [?v]) @ map lsb (eligibles (i + 1) bs))"
      proof (rule Cons.IH)
        show "length (ps @ [?v]) < 8" by (rule l)
        show "unat (j + 1) mod 8 = length (ps @ [?v])"
          using Cons.prems l by (simp add: unat_j_succ mod_Suc)
        show "?res = partial_byte 0 (ps @ [?v])" by (rule r)
      qed
      with F2 False show ?thesis by (simp add: Let_def)
    qed
  qed
qed

lemma decode_extract_eq: "decode_extract pix = pack_bits (map lsb (eligible_bytes pix))"
  using decode_loop_eq [of "[]" 0 0 0 pix "[]"] by (simp add: decode_extract_def eligibles_0)

lemma length_pack_bits: "length (pack_bits vs) = length vs div 8"
proof (induction vs rule: pack_bits.induct)
  case (1 vs)
  show ?case
  proof (cases "length vs < 8")
    case True
    then show ?thesis by (simp add: pack_bits.simps)
  next
    case False
    then have "length (pack_bits (drop 8 vs)) = (length vs - 8) div 8"
      using 1 by simp
    with False show ?thesis by (subst pack_bits.simps) (simp add: le_div_geq)
  qed
qed

lemma nth_pack_bits:
  "n < length vs div 8 \<Longrightarrow> pack_bits vs ! n = partial_byte 0 (take 8 (drop (8 * n) vs))"
proof (induction n arbitrary: vs)
  case 0
  then show ?case by (subst pack_bits.simps) auto
next
  case (Suc n)
  then have l: "\<not> length vs < 8" by auto
  have "n < length (drop 8 vs) div 8" using Suc.prems by simp
  then have "pack_bits (drop 8 vs) ! n = partial_byte 0 (take 8 (drop (8 * n) (drop 8 vs)))"
    by (rule Suc.IH)
  with l show ?case by (subst pack_bits.simps) (simp add: add.commute)
qed

lemma bit_partial_byte:
  "k + length vs \<le> 8 \<Longrightarrow>
   bit (partial_byte k vs) n \<longleftrightarrow> (n \<le> 7 \<and> k \<le> 7 - n \<and> 7 - n - k < length vs \<and> vs ! (7 - n - k))"
proof (induction vs arbitrary: k)
  case Nil
  show ?case by simp
next
  case (Cons v vs)
  have k: "k \<le> 7" using Cons.prems by simp
  have A: "bit (push_bit (7 - k) (of_bool v :: byte)) n \<longleftrightarrow> (n = 7 - k \<and> v)"
    using k by (auto simp add: bit_simps)
  have B: "bit (partial_byte (k + 1) vs) n \<longleftrightarrow>
      (n \<le> 7 \<and> k + 1 \<le> 7 - n \<and> 7 - n - (k + 1) < length vs \<and> vs ! (7 - n - (k + 1)))"
    by (rule Cons.IH) (use Cons.prems in simp)
  have C: "bit (partial_byte k (v # vs)) n \<longleftrightarrow>
      (n = 7 - k \<and> v) \<or> (n \<le> 7 \<and> k + 1 \<le> 7 - n \<and> 7 - n - (k + 1) < length vs \<and> vs ! (7 - n - (k + 1)))"
    by (simp only: partial_byte.simps bit_or_iff A B)
  consider "n = 7 - k" | "n \<le> 7" "k < 7 - n" | "n > 7" | "n \<le> 7" "k > 7 - n" by linarith
  then show ?case
  proof cases
    case 1
    then show ?thesis using k unfolding C by simp
  next
    case 2
    then have "7 - n - k = Suc (7 - n - (k + 1))" and "n \<noteq> 7 - k" by simp_all
    then show ?thesis using 2 unfolding C by simp
  next
    case 3
    then have "n \<noteq> 7 - k" by simp
    with 3 show ?thesis unfolding C by simp
  next
    case 4
    then have "n \<noteq> 7 - k" using k by arith
    with 4 show ?thesis unfolding C by simp
  qed
qed

lemma bit_pack_bits:
  assumes "n < length vs div 8" "m < 8"
  shows "bit (pack_bits vs ! n) (7 - m) = vs ! (8 * n + m)"
proof -
  have "8 * n + 8 \<le> length vs" using assms(1) by arith
  then have l: "length (take 8 (drop (8 * n) vs)) = 8" by simp
  show ?thesis
    using assms l by (simp add: nth_pack_bits bit_partial_byte)
qed

subsection \<open>The loop of encode embeds the bits of the frame\<close>

lemma bitReader_next_eq:
  "bitReader_next br =
     (if ptr br < 8 * length (data br)
      then (Inr (of_bool (frame_bit (data br) (ptr br))), br\<lparr>ptr := ptr br + 1\<rparr>)
      else (Inl EOF, br))"
proof (cases "ptr br < 8 * length (data br)")
  case True
  then have d: "ptr br div 8 < length (data br)" by arith
  have nb: "drop_bit (unat (7 - (of_nat (ptr br mod 8) :: byte)))
        (data br ! (ptr br div 8) AND drop_bit (unat (of_nat (ptr br mod 8) :: byte)) 0x80)
      = of_bool (frame_bit (data br) (ptr br))"
    unfolding frame_bit_def by (rule next_bit_word) simp
  have ix: "index (data br) (ptr br div 8) = Inr (data br ! (ptr br div 8))"
    using d by (simp add: index_def)
  have "bitReader_next br =
      (if length (data br) \<le> ptr br div 8 then (Inl EOF, br)
       else (Inr (of_bool (frame_bit (data br) (ptr br))), br\<lparr>ptr := ptr br + 1\<rparr>))"
    by (simp only: bitReader_next_def Let_def ix sum.case nb)
  with True d show ?thesis by simp
next
  case False
  then have "length (data br) \<le> ptr br div 8" by arith
  with False show ?thesis by (simp add: bitReader_next_def)
qed

lemma drop_frame_bits:
  "ptr r < 8 * length (data r) \<Longrightarrow>
   drop (ptr r) (frame_bits (data r)) = frame_bit (data r) (ptr r) # drop (ptr r + 1) (frame_bits (data r))"
  using Cons_nth_drop_Suc [of "ptr r" "frame_bits (data r)"] by (simp add: frame_bits_def)

lemma set_lsb_eq: "(if (b::byte) mod 2 \<noteq> 0 then b - 1 else b) + of_bool v = set_lsb b v"
  unfolding set_lsb_def by (rule set_lsb_word)

lemma upd_step:
  "i < length dest \<Longrightarrow>
   take (i + 1) (dest[i := x]) @ ys @ drop (i + 1 + n) (dest[i := x])
     = take i dest @ (x # ys) @ drop (i + Suc n) dest"
  by (simp add: take_Suc_conv_app_nth)

lemma encode_loop_eq:
  "i + length bs \<le> length dest \<Longrightarrow>
   encode_loop i bs r dest =
     Inr (take i dest @ embed_bits i bs (drop (ptr r) (frame_bits (data r))) @ drop (i + length bs) dest)"
proof (induction bs arbitrary: i r dest)
  case Nil
  then show ?case by simp
next
  case (Cons b bs)
  have i: "i < length dest" using Cons.prems by simp
  have IH: "encode_loop (i + 1) bs r' (dest[i := x]) =
      Inr (take i dest @ (x # embed_bits (i + 1) bs (drop (ptr r') (frame_bits (data r')))) @ drop (i + Suc (length bs)) dest)" for r' x
  proof -
    have "encode_loop (i + 1) bs r' (dest[i := x]) =
      Inr (take (i + 1) (dest[i := x]) @ embed_bits (i + 1) bs (drop (ptr r') (frame_bits (data r')))
            @ drop (i + 1 + length bs) (dest[i := x]))"
      by (rule Cons.IH) (use Cons.prems in simp)
    then show ?thesis using i by (simp only: upd_step)
  qed
  show ?case
  proof (cases "(i + 1) mod 4 = 0")
    case True
    then show ?thesis using i IH [of r b] by simp
  next
    case False
    show ?thesis
    proof (cases "ptr r < 8 * length (data r)")
      case True
      let ?r = "r\<lparr>ptr := ptr r + 1\<rparr>"
      have nx: "bitReader_next r = (Inr (of_bool (frame_bit (data r) (ptr r))), ?r)"
        using True by (simp add: bitReader_next_eq)
      have "encode_loop i (b # bs) r dest =
          encode_loop (i + 1) bs ?r
            (dest[i := (if b mod 2 \<noteq> 0 then b - 1 else b) + of_bool (frame_bit (data r) (ptr r))])"
        using False i by (simp only: encode_loop.simps nx if_False if_True prod.case sum.case Let_def)
      then have "encode_loop i (b # bs) r dest =
          encode_loop (i + 1) bs ?r (dest[i := set_lsb b (frame_bit (data r) (ptr r))])"
        by (simp only: set_lsb_eq)
      also have "\<dots> = Inr (take i dest @ (set_lsb b (frame_bit (data r) (ptr r)) #
            embed_bits (i + 1) bs (drop (ptr ?r) (frame_bits (data ?r)))) @ drop (i + Suc (length bs)) dest)"
        by (rule IH)
      finally show ?thesis using False True by (simp add: drop_frame_bits)
    next
      case F2: False
      then have "drop (ptr r) (frame_bits (data r)) = []" by (simp add: frame_bits_def)
      moreover have "encode_loop i (b # bs) r dest = encode_loop (i + 1) bs r (dest[i := b])"
        using False F2 i by (simp add: bitReader_next_eq)
      ultimately show ?thesis using False IH [of r b] by simp
    qed
  qed
qed

lemma length_embed_bits: "length (embed_bits i bs vs) = length bs"
  by (induction bs arbitrary: i vs) (simp_all split: list.splits)

lemma lsb_set_lsb: "lsb (set_lsb b v) = v"
proof -
  have m: "(0xFE :: byte) = NOT 1" by simp
  show ?thesis unfolding lsb_def set_lsb_def m by (simp add: bit_simps)
qed

lemma bit_set_lsb: "bit (set_lsb b v) n = (if n = 0 then v else bit b n)"
proof -
  have m: "(0xFE :: byte) = NOT 1" by simp
  show ?thesis unfolding set_lsb_def m by (auto simp add: bit_simps dest: bit_imp_le_length)
qed

lemma length_eligibles_embed: "length (eligibles i (embed_bits i bs vs)) = length (eligibles i bs)"
  by (induction bs arbitrary: i vs) (simp_all split: list.splits)

lemma lsb_eligibles_embed:
  "map lsb (eligibles i (embed_bits i bs vs)) =
     take (length (eligibles i bs)) vs @ drop (length vs) (map lsb (eligibles i bs))"
proof (induction bs arbitrary: i vs)
  case Nil
  show ?case by simp
next
  case (Cons b bs)
  show ?case
  proof (cases "(i + 1) mod 4 = 0")
    case True
    then show ?thesis using Cons.IH [of "i + 1" vs] by simp
  next
    case False
    show ?thesis
    proof (cases vs)
      case Nil
      then show ?thesis using False Cons.IH [of "i + 1" "[]"] by simp
    next
      case (Cons v vs')
      then show ?thesis using False Cons.IH [of "i + 1" vs'] by (simp add: lsb_set_lsb)
    qed
  qed
qed

lemma length_binary_Write: "length (binary_Write v) = 4"
  by (simp add: binary_Write_def)

lemma length_newBitReader: "length (data (newBitReader msg)) = 8 + length msg"
  by (simp add: newBitReader_def length_binary_Write)

lemma encode_run_eq:
  "encode_run pix msg =
     (if 8 + length msg + length pix div 4 > length pix
      then (Some MessageTooLarge, \<lparr>srcPix = pix, destPix = replicate (length pix) 0\<rparr>)
      else (None, \<lparr>srcPix = pix, destPix = embed_bits 0 pix (frame_bits (data (newBitReader msg)))\<rparr>))"
proof -
  have "encode_loop 0 pix (newBitReader msg) (replicate (length pix) 0) =
      Inr (take 0 (replicate (length pix) 0)
           @ embed_bits 0 pix (drop (ptr (newBitReader msg)) (frame_bits (data (newBitReader msg))))
           @ drop (0 + length pix) (replicate (length pix) 0))"
    by (rule encode_loop_eq) simp
  moreover have "ptr (newBitReader msg) = 0" by (simp add: newBitReader_def)
  ultimately have "encode_loop 0 pix (newBitReader msg) (replicate (length pix) 0) =
      Inr (embed_bits 0 pix (frame_bits (data (newBitReader msg))))" by simp
  then show ?thesis by (simp add: encode_run_def Let_def length_newBitReader)
qed

lemma encode_eq:
  "encode pix msg =
     (if 8 + length msg + length pix div 4 > length pix then Inl MessageTooLarge
      else Inr (embed_bits 0 pix (frame_bits (data (newBitReader msg)))))"
  by (simp add: encode_def encode_run_eq)

subsection \<open>Packing the bits of a frame gives the frame back\<close>

lemma frame_bits_Cons:
  "frame_bits (x # d) = map (\<lambda>m. bit x (7 - m)) [0..<8] @ frame_bits d"
proof -
  have s: "[0..<8 * length (x # d)] = [0..<8] @ map (\<lambda>k. k + 8) [0..<8 * length d]"
    using upt_add_eq_append [of 0 8 "8 * length d"] map_add_upt [of 8 "8 * length d"]
    by (simp add: add.commute)
  have a: "map (frame_bit (x # d)) [0..<8] = map (\<lambda>m. bit x (7 - m)) [0..<8]"
    by (rule map_cong) (simp_all add: frame_bit_def)
  have b: "map (frame_bit (x # d)) (map (\<lambda>k. k + 8) [0..<8 * length d]) = map (frame_bit d) [0..<8 * length d]"
  proof -
    have "(k + 8) div 8 = Suc (k div 8)" for k :: nat by simp
    then show ?thesis by (simp add: frame_bit_def comp_def)
  qed
  show ?thesis unfolding frame_bits_def s map_append a b ..
qed

lemma partial_byte_bits: "partial_byte 0 (map (\<lambda>m. bit (x::byte) (7 - m)) [0..<8]) = x"
proof (rule bit_word_eqI)
  fix n assume "n < LENGTH(8)"
  then have n: "n \<le> 7" by simp
  have "bit (partial_byte 0 (map (\<lambda>m. bit x (7 - m)) [0..<8])) n \<longleftrightarrow>
      (n \<le> 7 \<and> 0 \<le> 7 - n \<and> 7 - n - 0 < length (map (\<lambda>m. bit x (7 - m)) [0..<8])
        \<and> map (\<lambda>m. bit x (7 - m)) [0..<8] ! (7 - n - 0))"
    by (rule bit_partial_byte) simp
  also have "\<dots> \<longleftrightarrow> bit x n"
  proof -
    have "7 - n < 8" by arith
    then show ?thesis using n nth_upt [of 0 "7 - n" 8] by (simp del: upt_Suc)
  qed
  finally show "bit (partial_byte 0 (map (\<lambda>m. bit x (7 - m)) [0..<8])) n = bit x n" .
qed

lemma pack_frame_bits: "pack_bits (frame_bits d @ rest) = d @ pack_bits rest"
proof (induction d)
  case Nil
  show ?case by (simp add: frame_bits_def)
next
  case (Cons x d)
  have "pack_bits (map (\<lambda>m. bit x (7 - m)) [0..<8] @ (frame_bits d @ rest))
      = partial_byte 0 (map (\<lambda>m. bit x (7 - m)) [0..<8]) # pack_bits (frame_bits d @ rest)"
    by (rule pack_bits_8) simp
  then show ?case using Cons by (simp only: frame_bits_Cons append_assoc partial_byte_bits append_Cons)
qed

subsection \<open>Parsing a frame, and the round trip\<close>

lemma binary_Read_Write: "binary_Read (binary_Write v @ rest) x = (None, v, rest)"
  by (simp add: binary_Read_def length_binary_Write Uint32_binary_Write)

lemma read_header_frame: "read_header (binary_Write a @ binary_Write b @ m) = (a, b, m)"
  by (simp add: read_header_def binary_Read_Write)

lemma length_frame_bits: "length (frame_bits d) = 8 * length d"
  by (simp add: frame_bits_def)

lemma parse_and_verify_frame:
  assumes "length msg < 2 ^ 32"
  shows "parse_and_verify (data (newBitReader msg) @ extra) = Inr msg"
proof -
  have u: "unat (of_nat (length msg) :: uint32) = length msg"
    using assms by (simp add: unat_of_nat)
  have "read_header (data (newBitReader msg) @ extra)
      = (of_nat (length msg), Checksum msg, msg @ extra)"
    using read_header_frame [of "of_nat (length msg)" "Checksum msg" "msg @ extra"]
    by (simp add: newBitReader_def)
  then show ?thesis by (simp add: parse_and_verify_def u slice_to_def)
qed

lemma length_eligibles_0: "length (eligibles 0 pix) = eligible_count pix"
  by (simp add: eligibles_0 length_eligible_bytes)

lemma decode_extract_embed:
  assumes "8 * length d \<le> eligible_count pix"
  shows "decode_extract (embed_bits 0 pix (frame_bits d))
    = d @ pack_bits (drop (8 * length d) (map lsb (eligible_bytes pix)))"
proof -
  have "map lsb (eligibles 0 (embed_bits 0 pix (frame_bits d)))
      = take (length (eligibles 0 pix)) (frame_bits d) @ drop (length (frame_bits d)) (map lsb (eligibles 0 pix))"
    by (rule lsb_eligibles_embed)
  also have "\<dots> = frame_bits d @ drop (8 * length d) (map lsb (eligible_bytes pix))"
    using assms by (simp add: length_eligible_bytes length_frame_bits eligibles_0)
  finally show ?thesis
    by (simp add: decode_extract_eq pack_frame_bits flip: eligibles_0)
qed

lemma roundtrip:
  assumes "length P < 2 ^ 32" and "8 * (8 + length P) \<le> eligible_count pix"
  shows "\<exists>out. encode pix P = Inr out \<and> decode out = Inr P"
proof -
  let ?d = "data (newBitReader P)"
  let ?out = "embed_bits 0 pix (frame_bits ?d)"
  have "8 + length P + length pix div 4 \<le> length pix"
    using assms(2) by (simp add: eligible_count_eq)
  then have e: "encode pix P = Inr ?out" by (simp add: encode_eq)
  have "8 * length ?d \<le> eligible_count pix"
    using assms(2) by (simp add: length_newBitReader)
  then have "decode_extract ?out = ?d @ pack_bits (drop (8 * length ?d) (map lsb (eligible_bytes pix)))"
    by (rule decode_extract_embed)
  then have "decode ?out = Inr P"
    using assms(1) by (simp add: decode_def parse_and_verify_frame)
  with e show ?thesis by blast
qed

lemma parse_length: "parse_and_verify buf = Inr m \<Longrightarrow> length m < 2 ^ 32"
proof -
  assume a: "parse_and_verify buf = Inr m"
  obtain sz hsh msg where h: "read_header buf = (sz, hsh, msg)" by (cases "read_header buf")
  from a h have "m = take (unat sz) msg" and "unat sz \<le> length msg"
    by (auto simp add: parse_and_verify_def slice_to_def split: if_splits)
  then have "length m = unat sz" by simp
  moreover have "unat sz < 2 ^ 32" using unsigned_less [of sz] by simp
  ultimately show ?thesis by simp
qed

subsection \<open>The bytes of the encoded image, one by one\<close>

lemma rank_Suc: "rank (Suc i) = rank i + (if eligible i then 1 else 0)"
  by (simp add: rank_def)

lemma rank_mono: "rank i \<le> rank (i + n)"
  by (induction n) (simp_all add: rank_Suc)

lemma nth_embed_bits:
  "n < length bs \<Longrightarrow>
   embed_bits i bs vs ! n =
     (if eligible (i + n) \<and> rank (i + n) - rank i < length vs
      then set_lsb (bs ! n) (vs ! (rank (i + n) - rank i)) else bs ! n)"
proof (induction bs arbitrary: i vs n)
  case Nil
  then show ?case by simp
next
  case (Cons b bs)
  show ?case
  proof (cases n)
    case 0
    then show ?thesis by (simp add: eligible_def split: list.splits)
  next
    case (Suc n')
    then have n': "n' < length bs" using Cons.prems by simp
    have IH: "embed_bits (i + 1) bs ws ! n' =
        (if eligible (i + 1 + n') \<and> rank (i + 1 + n') - rank (i + 1) < length ws
         then set_lsb (bs ! n') (ws ! (rank (i + 1 + n') - rank (i + 1))) else bs ! n')" for ws
      using n' by (rule Cons.IH)
    have m: "rank (i + 1) \<le> rank (i + 1 + n')" by (rule rank_mono)
    show ?thesis
    proof (cases "eligible i")
      case False
      then have "rank (i + 1) = rank i" by (simp add: rank_Suc)
      then show ?thesis using False Suc IH [of vs] by (simp add: eligible_def)
    next
      case True
      then have r: "rank (i + 1) = Suc (rank i)" by (simp add: rank_Suc)
      then have d: "rank (i + 1 + n') - rank i = Suc (rank (i + 1 + n') - rank (i + 1))"
        using m by simp
      show ?thesis
      proof (cases vs)
        case Nil
        then show ?thesis using True Suc IH [of "[]"] by (simp add: eligible_def)
      next
        case (Cons v vs')
        have "embed_bits i (b # bs) vs ! n = embed_bits (i + 1) bs vs' ! n'"
          using True Suc Cons by (simp add: eligible_def)
        then show ?thesis using Suc Cons IH [of vs'] d by simp
      qed
    qed
  qed
qed

lemma encode_nth:
  assumes "encode pix msg = Inr out" and "i < length pix"
  shows "out ! i =
     (if eligible i \<and> rank i < 8 * (8 + length msg)
      then set_lsb (pix ! i) (frame_bit (data (newBitReader msg)) (rank i)) else pix ! i)"
proof -
  have o: "out = embed_bits 0 pix (frame_bits (data (newBitReader msg)))"
    using assms(1) by (simp add: encode_eq split: if_splits)
  have r0: "rank 0 = 0" by (simp add: rank_def)
  show ?thesis
    unfolding o using nth_embed_bits [OF assms(2), of 0 "frame_bits (data (newBitReader msg))"]
    by (simp add: r0 length_frame_bits length_newBitReader frame_bits_def)
qed

lemma encode_length: "encode pix msg = Inr out \<Longrightarrow> length out = length pix"
  by (auto simp add: encode_eq length_embed_bits split: if_splits)

lemma drop_bit_set_lsb: "drop_bit (Suc 0) (set_lsb b v) = drop_bit (Suc 0) b"
  by (rule bit_eqI) (simp add: bit_drop_bit_eq bit_set_lsb)

lemma drop_bit_1_set_lsb: "drop_bit 1 (set_lsb b v) = drop_bit 1 b"
  using drop_bit_set_lsb [of b v] by simp

subsection \<open>Changing one byte of the carrier\<close>

lemma eligible_bytes_update_skip:
  assumes "\<not> eligible i"
  shows "eligible_bytes (pix[i := v]) = eligible_bytes pix"
proof -
  have "map (\<lambda>k. pix[i := v] ! k) (filter eligible [0..<length pix])
      = map (\<lambda>k. pix ! k) (filter eligible [0..<length pix])"
  proof (rule map_cong)
    fix k assume "k \<in> set (filter eligible [0..<length pix])"
    then have "k \<noteq> i" using assms by auto
    then show "pix[i := v] ! k = pix ! k" by simp
  qed simp
  then show ?thesis by (simp add: eligible_bytes_def)
qed

lemma filter_eligible_nth_rank:
  assumes "i < n" and "eligible i"
  shows "filter eligible [0..<n] ! rank i = i"
proof -
  have "[0..<n] = [0..<i] @ i # [Suc i..<n]"
    using assms(1) upt_add_eq_append [of 0 i "n - i"] upt_conv_Cons [of i n] by simp
  then have "filter eligible [0..<n] = filter eligible [0..<i] @ i # filter eligible [Suc i..<n]"
    using assms(2) by simp
  then show ?thesis by (simp add: rank_def nth_append)
qed

lemma rank_less_count:
  assumes "i < length pix" and "eligible i"
  shows "rank i < eligible_count pix"
proof -
  have "Suc i \<le> length pix" using assms(1) by simp
  then have "rank (Suc i) \<le> rank (length pix)" by (metis rank_mono le_add_diff_inverse)
  then show ?thesis using assms(2) by (simp add: rank_Suc rank_def eligible_count_def)
qed

lemma eligible_bytes_nth_rank:
  assumes "i < length pix" and "eligible i"
  shows "eligible_bytes pix ! rank i = pix ! i"
  using rank_less_count [OF assms] filter_eligible_nth_rank [OF assms]
  by (simp add: eligible_bytes_def eligible_count_def)

lemma eligible_bytes_update:
  assumes "i < length pix" and "eligible i"
  shows "eligible_bytes (pix[i := v]) = (eligible_bytes pix)[rank i := v]"
proof (rule nth_equalityI)
  show "length (eligible_bytes (pix[i := v])) = length ((eligible_bytes pix)[rank i := v])"
    by (simp add: eligible_bytes_def)
next
  fix n assume "n < length (eligible_bytes (pix[i := v]))"
  then have n: "n < length (filter eligible [0..<length pix])" by (simp add: eligible_bytes_def)
  let ?f = "filter eligible [0..<length pix]"
  have r: "rank i < length ?f" using rank_less_count [OF assms] by (simp add: eligible_count_def)
  have d: "distinct ?f" by simp
  have fi: "?f ! rank i = i" using assms by (rule filter_eligible_nth_rank)
  have k: "?f ! n < length pix" using nth_mem [OF n] by auto
  show "eligible_bytes (pix[i := v]) ! n = (eligible_bytes pix)[rank i := v] ! n"
  proof (cases "n = rank i")
    case True
    then show ?thesis using n fi assms(1) by (simp add: eligible_bytes_def)
  next
    case False
    then have "?f ! n \<noteq> i" using d n r fi by (metis nth_eq_iff_index_eq)
    then show ?thesis using n False by (simp add: eligible_bytes_def)
  qed
qed

lemma pack_bits_nth_cong:
  assumes "n < length vs div 8" and "length ws = length vs"
    and "\<And>m. m < 8 \<Longrightarrow> ws ! (8 * n + m) = vs ! (8 * n + m)"
  shows "pack_bits ws ! n = pack_bits vs ! n"
proof (rule bit_word_eqI)
  fix j assume "j < LENGTH(8)"
  then have j: "7 - j < 8" and j': "7 - (7 - j) = j" by simp_all
  have "bit (pack_bits ws ! n) (7 - (7 - j)) = ws ! (8 * n + (7 - j))"
    by (rule bit_pack_bits) (use assms j in simp_all)
  moreover have "bit (pack_bits vs ! n) (7 - (7 - j)) = vs ! (8 * n + (7 - j))"
    by (rule bit_pack_bits) (use assms j in simp_all)
  ultimately show "bit (pack_bits ws ! n) j = bit (pack_bits vs ! n) j"
    using assms(3) [OF j] by (simp only: j')
qed

lemma pack_bits_update_other:
  assumes "n < length vs div 8" and "n \<noteq> k div 8"
  shows "pack_bits (vs[k := w]) ! n = pack_bits vs ! n"
proof (rule pack_bits_nth_cong)
  show "n < length vs div 8" by (rule assms)
  show "length (vs[k := w]) = length vs" by simp
  fix m :: nat assume "m < 8"
  then have "8 * n + m \<noteq> k" using assms(2) by auto
  then show "vs[k := w] ! (8 * n + m) = vs ! (8 * n + m)" by simp
qed

lemma pack_bits_update_same:
  assumes "k < 8 * (length vs div 8)" and "w \<noteq> vs ! k"
  shows "pack_bits (vs[k := w]) ! (k div 8) \<noteq> pack_bits vs ! (k div 8)"
proof -
  have n: "k div 8 < length vs div 8" using assms(1) by arith
  have m: "k mod 8 < 8" by simp
  have kl: "k < length vs" using assms(1) by arith
  have "bit (pack_bits (vs[k := w]) ! (k div 8)) (7 - k mod 8) = vs[k := w] ! (8 * (k div 8) + k mod 8)"
    by (rule bit_pack_bits) (use n m in simp_all)
  moreover have "bit (pack_bits vs ! (k div 8)) (7 - k mod 8) = vs ! (8 * (k div 8) + k mod 8)"
    by (rule bit_pack_bits) (use n m in simp_all)
  ultimately have "bit (pack_bits (vs[k := w]) ! (k div 8)) (7 - k mod 8)
      \<noteq> bit (pack_bits vs ! (k div 8)) (7 - k mod 8)"
    using assms(2) kl by simp
  then show ?thesis by metis
qed

subsection \<open>What the parser accepts\<close>

lemma read_header_cases:
  "read_header buf =
     (if length buf < 4 then (0, 0, [])
      else if length buf < 8 then (Uint32 (take 4 buf), 0, [])
      else (Uint32 (take 4 buf), Uint32 (take 4 (drop 4 buf)), drop 8 buf))"
  by (auto simp add: read_header_def binary_Read_def)

lemma Checksum_Nil: "Checksum [] = 1"
  by (simp add: Checksum_def)

lemma parse_short: "length buf < 8 \<Longrightarrow> parse_and_verify buf = Inl NoHiddenMessage"
  by (simp add: parse_and_verify_def read_header_cases slice_to_def Checksum_Nil)

lemma parse_outcomes:
  "parse_and_verify buf = Inl NoHiddenMessage \<or> (\<exists>m. parse_and_verify buf = Inr m)"
  by (cases "read_header buf") (simp add: parse_and_verify_def slice_to_def)

lemma parse_Inr_iff:
  "parse_and_verify buf = Inr P \<longleftrightarrow>
     8 + length P \<le> length buf \<and> unat (Uint32 (take 4 buf)) = length P
     \<and> P = take (length P) (drop 8 buf) \<and> Checksum P = Uint32 (take 4 (drop 4 buf))"
proof (cases "length buf < 8")
  case True
  then show ?thesis by (simp add: parse_short)
next
  case False
  then have h: "read_header buf = (Uint32 (take 4 buf), Uint32 (take 4 (drop 4 buf)), drop 8 buf)"
    by (simp add: read_header_cases)
  show ?thesis
    unfolding parse_and_verify_def h using False
    by (auto simp add: slice_to_def min_def)
qed

lemma parse_prefix:
  assumes "parse_and_verify buf = Inr P"
    and "take (8 + length P) buf' = take (8 + length P) buf"
  shows "parse_and_verify buf' = Inr P"
proof -
  let ?n = "8 + length P"
  from assms(1) have l: "?n \<le> length buf" and u: "unat (Uint32 (take 4 buf)) = length P"
    and p: "P = take (length P) (drop 8 buf)" and c: "Checksum P = Uint32 (take 4 (drop 4 buf))"
    by (simp_all add: parse_Inr_iff)
  have "length (take ?n buf') = ?n" using l by (simp add: assms(2))
  then have l': "?n \<le> length buf'" by simp
  have t4: "take 4 buf' = take 4 buf"
    using arg_cong [OF assms(2), of "take 4"] by (simp add: min_def)
  have t44: "take 4 (drop 4 buf') = take 4 (drop 4 buf)"
    using arg_cong [OF assms(2), of "\<lambda>xs. take 4 (drop 4 xs)"] by (simp add: drop_take min_def)
  have t8: "take (length P) (drop 8 buf') = take (length P) (drop 8 buf)"
    using arg_cong [OF assms(2), of "drop 8"] by (simp add: drop_take)
  show ?thesis
    unfolding parse_Inr_iff t4 t44 t8 using l' u p c by simp
qed

subsection \<open>The checksum detects the change of one byte\<close>

lemma adler32_update_fst:
  "a < 65521 \<Longrightarrow> fst (adler32_update a b xs) = (a + sum_list (map unat xs)) mod 65521"
proof (induction xs arbitrary: a b)
  case Nil
  then show ?case by simp
next
  case (Cons x xs)
  have "fst (adler32_update ((a + unat x) mod 65521) ((b + (a + unat x) mod 65521) mod 65521) xs)
      = ((a + unat x) mod 65521 + sum_list (map unat xs)) mod 65521"
    by (rule Cons.IH) simp
  also have "\<dots> = (a + unat x + sum_list (map unat xs)) mod 65521"
    by (rule mod_add_left_eq)
  finally show ?case by (simp add: Let_def add.assoc)
qed

lemma Checksum_low:
  "unat (take_bit 16 (Checksum p)) = (1 + sum_list (map unat p)) mod 65521"
proof -
  obtain s1 s2 where a: "adler32_update 1 0 p = (s1, s2)" by (cases "adler32_update 1 0 p")
  have s1: "s1 = (1 + sum_list (map unat p)) mod 65521"
    using adler32_update_fst [of 1 0 p] a by simp
  then have b: "s1 < 65521" by simp
  have a': "adler32_update (Suc 0) 0 p = (s1, s2)" using a by simp
  have "take_bit 16 (Checksum p) = (of_nat s1 :: uint32)"
  proof (rule bit_word_eqI)
    fix n assume "n < LENGTH(32)"
    have "s1 < 2 ^ 16" using b by simp
    then have "take_bit 16 s1 = s1" by (simp add: take_bit_nat_eq_self_iff)
    then have "bit s1 n \<Longrightarrow> n < 16" by (metis bit_take_bit_iff)
    then show "bit (take_bit 16 (Checksum p)) n = bit (of_nat s1 :: uint32) n"
      using \<open>n < LENGTH(32)\<close> by (auto simp add: Checksum_def a' bit_simps)
  qed
  moreover have "unat (of_nat s1 :: uint32) = s1" using b by (simp add: unat_of_nat)
  ultimately show ?thesis using s1 by simp
qed

lemma sum_list_update_unat:
  assumes "q < length p"
  shows "sum_list (map unat (p[q := y])) + unat (p ! q) = sum_list (map unat p) + unat y"
proof -
  have "p = take q p @ p ! q # drop (Suc q) p" using assms by (simp add: id_take_nth_drop)
  then have "sum_list (map unat p)
      = sum_list (map unat (take q p)) + unat (p ! q) + sum_list (map unat (drop (Suc q) p))"
    by (metis map_append list.simps(9) sum_list.append sum_list.Cons add.assoc)
  moreover have "sum_list (map unat (p[q := y]))
      = sum_list (map unat (take q p)) + unat y + sum_list (map unat (drop (Suc q) p))"
    using assms by (simp add: upd_conv_take_nth_drop)
  ultimately show ?thesis by simp
qed

lemma mod_neq_small:
  fixes a b :: nat
  assumes "a < b" and "b - a < 65521"
  shows "a mod 65521 \<noteq> b mod 65521"
proof
  assume "a mod 65521 = b mod 65521"
  then have "65521 dvd b - a" using assms(1) by (metis mod_eq_dvd_iff_nat less_imp_le)
  then show False using assms by (auto dest: dvd_imp_le)
qed

lemma Checksum_update:
  assumes "q < length p" and "y \<noteq> p ! q"
  shows "Checksum (p[q := y]) \<noteq> Checksum p"
proof
  assume "Checksum (p[q := y]) = Checksum p"
  then have e: "(1 + sum_list (map unat (p[q := y]))) mod 65521 = (1 + sum_list (map unat p)) mod 65521"
    by (metis Checksum_low)
  have s: "sum_list (map unat (p[q := y])) + unat (p ! q) = sum_list (map unat p) + unat y"
    using assms(1) by (rule sum_list_update_unat)
  have ne: "unat y \<noteq> unat (p ! q)" using assms(2) by (simp add: word_unat_eq_iff)
  have yb: "unat y < 256" and xb: "unat (p ! q) < 256"
    using unsigned_less [of y] unsigned_less [of "p ! q"] by simp_all
  consider "unat y < unat (p ! q)" | "unat (p ! q) < unat y" using ne by linarith
  then show False
  proof cases
    case 1
    have "(1 + sum_list (map unat (p[q := y]))) mod 65521 \<noteq> (1 + sum_list (map unat p)) mod 65521"
      by (rule mod_neq_small) (use s 1 yb xb in linarith)+
    with e show False by simp
  next
    case 2
    have "(1 + sum_list (map unat p)) mod 65521 \<noteq> (1 + sum_list (map unat (p[q := y]))) mod 65521"
      by (rule mod_neq_small) (use s 2 yb xb in linarith)+
    with e show False by simp
  qed
qed

subsection \<open>Changing one byte of the extracted buffer\<close>

lemma lsb_xor_1: "lsb (b XOR 1) = (\<not> lsb b)"
  by (simp add: lsb_def bit_simps)

lemma pack_bits_update_eq:
  assumes "k < 8 * (length vs div 8)"
  shows "pack_bits (vs[k := w]) = (pack_bits vs)[k div 8 := pack_bits (vs[k := w]) ! (k div 8)]"
proof (rule nth_equalityI)
  show "length (pack_bits (vs[k := w])) = length ((pack_bits vs)[k div 8 := pack_bits (vs[k := w]) ! (k div 8)])"
    by (simp add: length_pack_bits)
next
  fix n assume "n < length (pack_bits (vs[k := w]))"
  then have n: "n < length vs div 8" by (simp add: length_pack_bits)
  show "pack_bits (vs[k := w]) ! n = (pack_bits vs)[k div 8 := pack_bits (vs[k := w]) ! (k div 8)] ! n"
  proof (cases "n = k div 8")
    case True
    then show ?thesis using n by (simp add: length_pack_bits)
  next
    case False
    then show ?thesis using n by (simp add: pack_bits_update_other)
  qed
qed

lemma pack_bits_update_prefix:
  assumes "8 * m \<le> k"
  shows "take m (pack_bits (vs[k := w])) = take m (pack_bits vs)"
proof (cases "m \<le> length vs div 8")
  case True
  show ?thesis
  proof (rule nth_take_lemma)
    show "m \<le> length (pack_bits (vs[k := w]))" using True by (simp add: length_pack_bits)
    show "m \<le> length (pack_bits vs)" using True by (simp add: length_pack_bits)
    show "n < m \<longrightarrow> pack_bits (vs[k := w]) ! n = pack_bits vs ! n" for n
    proof
      assume n: "n < m"
      then have "n \<noteq> k div 8" using assms by auto
      moreover have "n < length vs div 8" using n True by simp
      ultimately show "pack_bits (vs[k := w]) ! n = pack_bits vs ! n"
        by (simp add: pack_bits_update_other)
    qed
  qed
next
  case False
  then have "length vs div 8 \<le> k div 8" using assms by auto
  then have "pack_bits (vs[k := w]) = pack_bits vs"
    by (intro nth_equalityI) (simp_all add: length_pack_bits pack_bits_update_other)
  then show ?thesis by simp
qed

lemma parse_detects_change:
  assumes "parse_and_verify buf = Inr P" and "8 \<le> q" and "q < 8 + length P" and "z \<noteq> buf ! q"
  shows "parse_and_verify (buf[q := z]) = Inl NoHiddenMessage"
proof -
  from assms(1) have l: "8 + length P \<le> length buf" and u: "unat (Uint32 (take 4 buf)) = length P"
    and p: "P = take (length P) (drop 8 buf)" and c: "Checksum P = Uint32 (take 4 (drop 4 buf))"
    by (simp_all add: parse_Inr_iff)
  have t4: "take 4 (buf[q := z]) = take 4 buf" using assms(2) by simp
  have t44: "take 4 (drop 4 (buf[q := z])) = take 4 (drop 4 buf)"
    using assms(2) by (simp add: drop_update_swap)
  have t8: "take n (drop 8 (buf[q := z])) = (take n (drop 8 buf))[q - 8 := z]" for n
    using assms(2) by (simp add: drop_update_swap take_update_swap)
  have pq: "P ! (q - 8) = buf ! q"
    using assms(2,3) l by (subst p) simp
  have "parse_and_verify (buf[q := z]) \<noteq> Inr P'" for P'
  proof
    assume "parse_and_verify (buf[q := z]) = Inr P'"
    then have u': "unat (Uint32 (take 4 buf)) = length P'"
      and p': "P' = take (length P') (drop 8 (buf[q := z]))"
      and c': "Checksum P' = Uint32 (take 4 (drop 4 buf))"
      by (simp_all add: parse_Inr_iff t4 t44)
    have n: "length P' = length P" using u u' by simp
    have "P' = P[q - 8 := z]" using p' p unfolding n t8 by simp
    moreover have "Checksum (P[q - 8 := z]) \<noteq> Checksum P"
      by (rule Checksum_update) (use assms(2,3,4) pq in simp_all)
    ultimately show False using c c' by simp
  qed
  then show ?thesis using parse_outcomes [of "buf[q := z]"] by blast
qed

lemma decode_update_eligible:
  assumes "i < length c" and "eligible i"
  shows "decode_extract (c[i := x]) = pack_bits ((map lsb (eligible_bytes c))[rank i := lsb x])"
  by (simp add: decode_extract_eq eligible_bytes_update [OF assms] map_update)

subsection \<open>Big-endian values\<close>





subsection \<open>A truncated frame, and the concrete inputs\<close>

lemma take_frame_bits:
  assumes "n \<le> length d"
  shows "take (8 * n) (frame_bits d) = frame_bits (take n d)"
proof -
  have "map (frame_bit d) [0..<8 * n] = map (frame_bit (take n d)) [0..<8 * n]"
  proof (rule map_cong)
    fix k assume "k \<in> set [0..<8 * n]"
    then have "k div 8 < n" by auto
    then show "frame_bit d k = frame_bit (take n d) k" by (simp add: frame_bit_def)
  qed simp
  then show ?thesis using assms by (simp add: frame_bits_def take_map min_def)
qed

lemma pack_bits_Nil: "pack_bits [] = []"
  by (simp add: pack_bits.simps)

lemma decode_extract_truncated:
  assumes "eligible_count pix = 8 * n" and "n \<le> length d"
  shows "decode_extract (embed_bits 0 pix (frame_bits d)) = take n d"
proof -
  have "map lsb (eligibles 0 (embed_bits 0 pix (frame_bits d)))
      = take (length (eligibles 0 pix)) (frame_bits d) @ drop (length (frame_bits d)) (map lsb (eligibles 0 pix))"
    by (rule lsb_eligibles_embed)
  also have "\<dots> = take (8 * n) (frame_bits d)"
    using assms by (simp add: length_eligibles_0 length_frame_bits)
  also have "\<dots> = frame_bits (take n d)" using assms(2) by (rule take_frame_bits)
  finally have "decode_extract (embed_bits 0 pix (frame_bits d)) = pack_bits (frame_bits (take n d))"
    by (simp add: decode_extract_eq flip: eligibles_0)
  moreover have "pack_bits (frame_bits (take n d)) = take n d"
    using pack_frame_bits [of "take n d" "[]"] by (simp add: pack_bits_Nil)
  ultimately show ?thesis by simp
qed

lemma capacity_check_iff:
  "fst (encode_run pix msg) = Some MessageTooLarge \<longleftrightarrow> eligible_count pix < 8 + length msg"
proof -
  have "length pix div 4 \<le> length pix" by simp
  then show ?thesis by (auto simp add: encode_run_eq eligible_count_eq)
qed

lemma encode_hello: "encode carrier_40000 hello = Inr hello_image"
  by (simp add: hello_image_def encode_eq carrier_40000_def hello_def)

lemma decode_hello_image: "decode hello_image = Inr hello"
proof -
  have "length hello < 2 ^ 32" by (simp add: hello_def)
  moreover have "8 * (8 + length hello) \<le> eligible_count carrier_40000"
    by (simp add: hello_def carrier_40000_def eligible_count_eq)
  ultimately obtain out where "encode carrier_40000 hello = Inr out" and "decode out = Inr hello"
    using roundtrip by blast
  then show ?thesis by (simp add: encode_hello)
qed

lemma length_hello_image: "length hello_image = 40000"
  using encode_length [OF encode_hello] by (simp add: carrier_40000_def)


section \<open>The claims\<close>

text \<open>
  C1, as amended. For every payload \<open>P\<close> of fewer than \<open>2 ^ 32\<close> bytes and every
  channel buffer whose eligible-byte count satisfies \<open>8 * (8 + length P) \<le> E\<close>,
  \<open>encode\<close> succeeds and \<open>decode\<close> of the buffer it wrote yields exactly \<open>P\<close>.
\<close>

theorem roundtrip_below_4GiB:
  assumes "length P < 2 ^ 32" and "8 * (8 + length P) \<le> eligible_count pix"
  shows "encode_then_decode pix P = Inr P"
proof -
  obtain out where "encode pix P = Inr out" and "decode out = Inr P"
    using roundtrip [OF assms] by blast
  then show ?thesis by (simp add: encode_then_decode_def)
qed

text \<open>The round trip of the message ``HELLO'' through the carrier of 40,000 bytes.\<close>

theorem roundtrip_below_4GiB_witness:
  "length hello < 2 ^ 32 \<and> 8 * (8 + length hello) \<le> eligible_count carrier_40000
     \<and> encode_then_decode carrier_40000 hello = Inr hello"
proof -
  have h1: "length hello < 2 ^ 32" by (simp add: hello_def)
  have h2: "8 * (8 + length hello) \<le> eligible_count carrier_40000"
    by (simp add: hello_def carrier_40000_def eligible_count_eq)
  from h1 h2 roundtrip_below_4GiB [OF h1 h2] show ?thesis by simp
qed

text \<open>
  C1 as stated fails for a payload of \<open>2 ^ 32\<close> bytes, however large the carrier: the
  length field of the frame is \<open>uint32(len(msg))\<close>, and \<open>decode\<close> never returns
  more bytes than that field can count.
\<close>

theorem roundtrip_fails_at_4GiB:
  "8 * (8 + length payload_4GiB) \<le> eligible_count carrier_64GiB
     \<and> encode_then_decode carrier_64GiB payload_4GiB \<noteq> Inr payload_4GiB"
proof
  show "8 * (8 + length payload_4GiB) \<le> eligible_count carrier_64GiB"
    by (simp add: payload_4GiB_def carrier_64GiB_def eligible_count_eq)
  show "encode_then_decode carrier_64GiB payload_4GiB \<noteq> Inr payload_4GiB"
  proof
    assume a: "encode_then_decode carrier_64GiB payload_4GiB = Inr payload_4GiB"
    then obtain out where "decode out = Inr payload_4GiB"
      by (auto simp add: encode_then_decode_def split: sum.splits)
    then have "length payload_4GiB < 2 ^ 32"
      unfolding decode_def by (rule parse_length)
    then show False by (simp add: payload_4GiB_def)
  qed
qed

text \<open>
  C2. The capacity check of \<open>encode\<close> compares the byte length of the frame with the
  eligible-byte count, not its bit length. On the carrier of 40,000 bytes
  (\<open>E = 30000\<close>) a payload of 3743 bytes, whose frame has 30008 bits, passes the
  check: \<open>encode\<close> ends without an error, the last byte of the frame is not embedded,
  and \<open>decode\<close> of the image finds no message.
\<close>

theorem capacity_check_accepts_3743:
  "eligible_count carrier_40000 = 30000
     \<and> 8 * (8 + length payload_3743) = 30008
     \<and> fst (encode_run carrier_40000 payload_3743) = None
     \<and> encode_then_decode carrier_40000 payload_3743 = Inl NoHiddenMessage"
proof (intro conjI)
  show e: "eligible_count carrier_40000 = 30000"
    by (simp add: carrier_40000_def eligible_count_eq)
  show "8 * (8 + length payload_3743) = 30008" by (simp add: payload_3743_def)
  show "fst (encode_run carrier_40000 payload_3743) = None"
    by (simp add: encode_run_eq carrier_40000_def payload_3743_def)
  let ?d = "data (newBitReader payload_3743)"
  let ?out = "embed_bits 0 carrier_40000 (frame_bits ?d)"
  have enc: "encode carrier_40000 payload_3743 = Inr ?out"
    by (simp add: encode_eq carrier_40000_def payload_3743_def)
  have "decode_extract ?out = take 3750 ?d"
    by (rule decode_extract_truncated) (simp_all add: e length_newBitReader payload_3743_def)
  then have x: "decode ?out = parse_and_verify (take 3750 ?d)" by (simp add: decode_def)
  have t: "take 4 (take 3750 ?d) = binary_Write 3743"
    by (simp add: newBitReader_def length_binary_Write payload_3743_def)
  have l: "length (take 3750 ?d) = 3750"
    by (simp add: length_newBitReader payload_3743_def)
  have u: "unat (Uint32 (take 4 (take 3750 ?d))) = 3743"
    unfolding t by (simp add: Uint32_binary_Write)
  have "parse_and_verify (take 3750 ?d) \<noteq> Inr P" for P
  proof
    assume "parse_and_verify (take 3750 ?d) = Inr P"
    then have "8 + length P \<le> length (take 3750 ?d)" and "unat (Uint32 (take 4 (take 3750 ?d))) = length P"
      by (simp_all add: parse_Inr_iff)
    then show False unfolding l u by simp
  qed
  then have "parse_and_verify (take 3750 ?d) = Inl NoHiddenMessage"
    using parse_outcomes [of "take 3750 ?d"] by blast
  then show "encode_then_decode carrier_40000 payload_3743 = Inl NoHiddenMessage"
    by (simp add: encode_then_decode_def enc x)
qed






text \<open>
  C5. Let \<open>decode\<close> recover \<open>P\<close> from a carrier. Flipping the lowest bit of an
  eligible byte that carries a bit of the payload region (bit number \<open>rank i\<close> of the
  extracted stream, from 64 up to \<open>64 + 8 * length P\<close>) makes \<open>decode\<close> fail with
  the no-hidden-message error; changing an eligible byte that carries a later bit of the
  stream leaves the result \<open>P\<close>.
\<close>

theorem payload_bit_flip_detected:
  assumes "decode c = Inr P" and "i < length c" and "(i + 1) mod 4 \<noteq> 0"
  shows "(64 \<le> rank i \<and> rank i < 64 + 8 * length P \<longrightarrow>
            decode (c[i := c ! i XOR 1]) = Inl NoHiddenMessage)
       \<and> (64 + 8 * length P \<le> rank i \<longrightarrow> decode (c[i := v]) = Inr P)"
proof (intro conjI impI)
  have e: "eligible i" using assms(3) by (simp add: eligible_def)
  let ?bits = "map lsb (eligible_bytes c)"
  let ?k = "rank i"
  have pb: "parse_and_verify (pack_bits ?bits) = Inr P"
    using assms(1) by (simp add: decode_def decode_extract_eq)
  then have l: "8 + length P \<le> length ?bits div 8"
    by (simp add: parse_Inr_iff length_pack_bits)
  {
    assume k: "64 \<le> ?k \<and> ?k < 64 + 8 * length P"
    let ?w = "lsb (c ! i XOR 1)"
    have kk: "?k < 8 * (length ?bits div 8)" using k l by arith
    have kl: "?k < length ?bits" using kk by arith
    have "?bits ! ?k = lsb (c ! i)"
      using kl eligible_bytes_nth_rank [OF assms(2) e] by simp
    then have w: "?w \<noteq> ?bits ! ?k" by (simp add: lsb_xor_1)
    have ne: "pack_bits (?bits[?k := ?w]) ! (?k div 8) \<noteq> pack_bits ?bits ! (?k div 8)"
      using kk w by (rule pack_bits_update_same)
    have "parse_and_verify ((pack_bits ?bits)[?k div 8 := pack_bits (?bits[?k := ?w]) ! (?k div 8)])
        = Inl NoHiddenMessage"
      by (rule parse_detects_change [OF pb]) (use k ne in auto)
    then have "parse_and_verify (pack_bits (?bits[?k := ?w])) = Inl NoHiddenMessage"
      using pack_bits_update_eq [OF kk, of ?w] by simp
    then show "decode (c[i := c ! i XOR 1]) = Inl NoHiddenMessage"
      by (simp add: decode_def decode_update_eligible [OF assms(2) e])
  }
  {
    assume k: "64 + 8 * length P \<le> ?k"
    have "take (8 + length P) (pack_bits (?bits[?k := lsb v])) = take (8 + length P) (pack_bits ?bits)"
      by (rule pack_bits_update_prefix) (use k in simp)
    with pb have "parse_and_verify (pack_bits (?bits[?k := lsb v])) = Inr P"
      by (rule parse_prefix)
    then show "decode (c[i := v]) = Inr P"
      by (simp add: decode_def decode_update_eligible [OF assms(2) e])
  }
qed

text \<open>
  The image that carries ``HELLO'': byte 100 carries bit 75 of the stream, inside the
  payload, and byte 200 carries bit 150, beyond it.
\<close>

theorem payload_bit_flip_detected_witness:
  "decode hello_image = Inr hello \<and> 100 < length hello_image \<and> (100 + 1) mod 4 \<noteq> (0::nat)
     \<and> 64 \<le> rank 100 \<and> rank 100 < 64 + 8 * length hello
     \<and> decode (hello_image[100 := hello_image ! 100 XOR 1]) = Inl NoHiddenMessage
     \<and> 200 < length hello_image \<and> (200 + 1) mod 4 \<noteq> (0::nat)
     \<and> 64 + 8 * length hello \<le> rank 200
     \<and> decode (hello_image[200 := 255]) = Inr hello"
proof -
  have h1: "100 < length hello_image" and h1': "200 < length hello_image"
    by (simp_all add: length_hello_image)
  have h2: "(100 + 1) mod 4 \<noteq> (0::nat)" and h2': "(200 + 1) mod 4 \<noteq> (0::nat)" by simp_all
  have h3: "64 \<le> rank 100 \<and> rank 100 < 64 + 8 * length hello"
    by (simp add: rank_eq hello_def)
  have h4: "64 + 8 * length hello \<le> rank 200" by (simp add: rank_eq hello_def)
  from payload_bit_flip_detected [OF decode_hello_image h1 h2]
    payload_bit_flip_detected [OF decode_hello_image h1' h2', of 255]
    decode_hello_image h1 h1' h2 h2' h3 h4
  show ?thesis by blast
qed

text \<open>
  C6. A byte at an index \<open>i\<close> with \<open>(i + 1) mod 4 = 0\<close> is copied by \<open>encode\<close>
  unchanged, and its value has no influence on the bytes that \<open>decode\<close> extracts.
  Every other byte is eligible: flipping its lowest bit changes the extracted bytes, as
  long as its bit belongs to a complete group of eight.
\<close>

theorem skipped_bytes:
  assumes "i < length pix" and "(i + 1) mod 4 = 0"
  shows "(\<forall>msg out. encode pix msg = Inr out \<longrightarrow> out ! i = pix ! i)
       \<and> (\<forall>v. decode_extract (pix[i := v]) = decode_extract pix)
       \<and> (\<forall>j<length pix. (j + 1) mod 4 \<noteq> 0 \<longrightarrow> rank j < 8 * (eligible_count pix div 8) \<longrightarrow>
            decode_extract (pix[j := pix ! j XOR 1]) \<noteq> decode_extract pix)"
proof (intro conjI allI impI)
  have ne: "\<not> eligible i" using assms(2) by (simp add: eligible_def)
  show "out ! i = pix ! i" if "encode pix msg = Inr out" for msg out
    using encode_nth [OF that assms(1)] ne by simp
  show "decode_extract (pix[i := v]) = decode_extract pix" for v
    by (simp add: decode_extract_eq eligible_bytes_update_skip [OF ne])
  fix j assume j: "j < length pix" and e': "(j + 1) mod 4 \<noteq> 0"
    and r: "rank j < 8 * (eligible_count pix div 8)"
  have e: "eligible j" using e' by (simp add: eligible_def)
  let ?bits = "map lsb (eligible_bytes pix)"
  have kk: "rank j < 8 * (length ?bits div 8)" using r by (simp add: length_eligible_bytes)
  then have kl: "rank j < length ?bits" by arith
  have "?bits ! rank j = lsb (pix ! j)"
    using kl eligible_bytes_nth_rank [OF j e] by simp
  then have w: "lsb (pix ! j XOR 1) \<noteq> ?bits ! rank j" by (simp add: lsb_xor_1)
  have "pack_bits (?bits[rank j := lsb (pix ! j XOR 1)]) ! (rank j div 8) \<noteq> pack_bits ?bits ! (rank j div 8)"
    using kk w by (rule pack_bits_update_same)
  then have "pack_bits (?bits[rank j := lsb (pix ! j XOR 1)]) \<noteq> pack_bits ?bits" by metis
  moreover have "decode_extract (pix[j := pix ! j XOR 1])
      = pack_bits (?bits[rank j := lsb (pix ! j XOR 1)])"
    by (rule decode_update_eligible [OF j e])
  moreover have "decode_extract pix = pack_bits ?bits" by (rule decode_extract_eq)
  ultimately show "decode_extract (pix[j := pix ! j XOR 1]) \<noteq> decode_extract pix"
    by simp
qed

text \<open>Byte 3 and byte 0 of the carrier of 40,000 bytes.\<close>

theorem skipped_bytes_witness:
  "3 < length carrier_40000 \<and> (3 + 1) mod 4 = (0::nat)
     \<and> encode carrier_40000 hello = Inr hello_image \<and> hello_image ! 3 = carrier_40000 ! 3
     \<and> decode_extract (carrier_40000[3 := 255]) = decode_extract carrier_40000
     \<and> 0 < length carrier_40000 \<and> (0 + 1) mod 4 \<noteq> (0::nat)
     \<and> rank 0 < 8 * (eligible_count carrier_40000 div 8)
     \<and> decode_extract (carrier_40000[0 := carrier_40000 ! 0 XOR 1]) \<noteq> decode_extract carrier_40000"
proof -
  have h1: "3 < length carrier_40000" and h1': "0 < length carrier_40000"
    by (simp_all add: carrier_40000_def)
  have h2: "(3 + 1) mod 4 = (0::nat)" and h2': "(0 + 1) mod 4 \<noteq> (0::nat)" by simp_all
  have h3: "rank 0 < 8 * (eligible_count carrier_40000 div 8)"
    by (simp add: rank_eq eligible_count_eq carrier_40000_def)
  from skipped_bytes [OF h1 h2] encode_hello h1 h1' h2 h2' h3
  show ?thesis by blast
qed

text \<open>
  C7. When \<open>encode\<close> succeeds, the eligible byte at index \<open>i\<close> is paired with bit
  number \<open>rank i\<close> of the frame: it becomes \<open>(b AND 0xFE) OR v\<close>, so its lowest bit
  is the frame's bit and the seven higher bits are unchanged. Once the bits of the frame are used up, the eligible bytes are copied
  unchanged.
\<close>

theorem embed_mutation_rule:
  assumes "encode pix msg = Inr out" and "i < length pix" and "(i + 1) mod 4 \<noteq> 0"
  shows "(rank i < 8 * length (data (newBitReader msg)) \<longrightarrow>
            out ! i = (pix ! i AND 0xFE) OR of_bool (frame_bit (data (newBitReader msg)) (rank i))
          \<and> bit (out ! i) 0 = frame_bit (data (newBitReader msg)) (rank i)
          \<and> drop_bit 1 (out ! i) = drop_bit 1 (pix ! i))
       \<and> (8 * length (data (newBitReader msg)) \<le> rank i \<longrightarrow> out ! i = pix ! i)"
proof -
  have e: "eligible i" using assms(3) by (simp add: eligible_def)
  have n: "out ! i =
     (if rank i < 8 * (8 + length msg)
      then set_lsb (pix ! i) (frame_bit (data (newBitReader msg)) (rank i)) else pix ! i)"
    using encode_nth [OF assms(1,2)] e by simp
  show ?thesis
  proof (cases "rank i < 8 * (8 + length msg)")
    case True
    then have o: "out ! i = set_lsb (pix ! i) (frame_bit (data (newBitReader msg)) (rank i))"
      using n by simp
    have A: "out ! i = (pix ! i AND 0xFE) OR of_bool (frame_bit (data (newBitReader msg)) (rank i))"
      unfolding o by (simp only: set_lsb_def)
    have B: "bit (out ! i) 0 = frame_bit (data (newBitReader msg)) (rank i)"
      unfolding o by (simp add: bit_set_lsb)
    have C: "drop_bit 1 (out ! i) = drop_bit 1 (pix ! i)"
      unfolding o by (rule drop_bit_1_set_lsb)
    have "\<not> 8 * length (data (newBitReader msg)) \<le> rank i"
      using True by (simp add: length_newBitReader)
    with A B C show ?thesis by blast
  next
    case False
    then show ?thesis using n by (simp add: length_newBitReader)
  qed
qed

text \<open>
  ``HELLO'' in the carrier of 40,000 bytes: byte 38 gets bit 29 of the frame, byte
  30038 lies beyond the 104 bits of the frame.
\<close>

theorem embed_mutation_rule_witness:
  "encode carrier_40000 hello = Inr hello_image
     \<and> 38 < length carrier_40000 \<and> (38 + 1) mod 4 \<noteq> (0::nat)
     \<and> rank 38 < 8 * length (data (newBitReader hello))
     \<and> hello_image ! 38 =
          (carrier_40000 ! 38 AND 0xFE) OR of_bool (frame_bit (data (newBitReader hello)) (rank 38))
     \<and> rank 30038 \<ge> 8 * length (data (newBitReader hello))
     \<and> hello_image ! 30038 = carrier_40000 ! 30038"
proof -
  have h1: "encode carrier_40000 hello = Inr hello_image"
    by (rule encode_hello)
  have h2: "38 < length carrier_40000" and h2': "30038 < length carrier_40000"
    by (simp_all add: carrier_40000_def)
  have h3: "(38 + 1) mod 4 \<noteq> (0::nat)" and h3': "(30038 + 1) mod 4 \<noteq> (0::nat)" by simp_all
  have h4: "rank 38 < 8 * length (data (newBitReader hello))"
    by (simp add: rank_eq length_newBitReader hello_def)
  have h5: "rank 30038 \<ge> 8 * length (data (newBitReader hello))"
    by (simp add: rank_eq length_newBitReader hello_def)
  from embed_mutation_rule [OF h1 h2 h3] embed_mutation_rule [OF h1 h2' h3'] h1 h2 h3 h4 h5
  show ?thesis by blast
qed




text \<open>
  C9. The first loop of \<open>decode\<close> is total and returns \<open>E div 8\<close> bytes; bit
  \<open>7 - m\<close> of output byte \<open>n\<close> is the lowest bit of eligible byte \<open>8 * n + m\<close>: the
  lowest bits of the eligible bytes in buffer order, eight per output byte, most
  significant bit first.
\<close>

theorem extract_packs_lsbs:
  "length (decode_extract pix) = eligible_count pix div 8 \<and>
   (\<forall>n m. n < eligible_count pix div 8 \<longrightarrow> m < 8 \<longrightarrow>
      bit (decode_extract pix ! n) (7 - m) = bit (eligible_bytes pix ! (8 * n + m)) 0)"
proof (intro conjI allI impI)
  show "length (decode_extract pix) = eligible_count pix div 8"
    by (simp add: decode_extract_eq length_pack_bits length_eligible_bytes)
next
  fix n m :: nat assume n: "n < eligible_count pix div 8" and m: "m < 8"
  then have l: "n < length (map lsb (eligible_bytes pix)) div 8"
    by (simp add: length_eligible_bytes)
  have "8 * n + m < eligible_count pix" using n m by arith
  then have "map lsb (eligible_bytes pix) ! (8 * n + m) = bit (eligible_bytes pix ! (8 * n + m)) 0"
    by (simp add: length_eligible_bytes lsb_def)
  then show "bit (decode_extract pix ! n) (7 - m) = bit (eligible_bytes pix ! (8 * n + m)) 0"
    using bit_pack_bits [OF l m] by (simp add: decode_extract_eq)
qed

text \<open>A carrier of twelve bytes: output byte 0 and bit 2 of its group.\<close>

theorem extract_packs_lsbs_witness:
  "(0::nat) < eligible_count carrier_12 div 8 \<and> (2::nat) < 8
     \<and> length (decode_extract carrier_12) = eligible_count carrier_12 div 8
     \<and> bit (decode_extract carrier_12 ! 0) (7 - 2) = bit (eligible_bytes carrier_12 ! (8 * 0 + 2)) 0"
proof -
  have h1: "(0::nat) < eligible_count carrier_12 div 8"
    by (simp add: carrier_12_def eligible_count_eq)
  have h2: "(2::nat) < 8" by simp
  from h1 h2 extract_packs_lsbs [of carrier_12, THEN conjunct1]
    extract_packs_lsbs [of carrier_12, THEN conjunct2, rule_format, OF h1 h2]
  show ?thesis by blast
qed




end
